theory Spec2Isabelle
  imports Main "HOL-Library.Word"
begin

unbundle bit_operations_syntax

section \<open>Data model\<close>

text \<open>
  Go's \<open>byte\<close> is an 8-bit word, \<open>uint16\<close>, \<open>uint32\<close> and \<open>uint64\<close> are words of
  their width, \<open>int64\<close> is a 64-bit word read with \<open>sint\<close>.  A Go \<open>string\<close> is a
  sequence of bytes; it is modelled as a \<open>char list\<close> (a \<open>char\<close> has 256 values), and
  the conversions \<open>[]byte(s)\<close> and \<open>string(b)\<close> are written out.  A fixed-size array
  \<open>[32]byte\<close> is a byte list whose length 32 is a hypothesis where it matters.
\<close>

type_synonym byte = "8 word"
type_synonym uint16 = "16 word"
type_synonym uint32 = "32 word"
type_synonym uint64 = "64 word"
type_synonym int64 = "64 word"

definition bytes_of_string :: "string \<Rightarrow> byte list" where
  "bytes_of_string s = map of_char s"

definition string_of_bytes :: "byte list \<Rightarrow> string" where
  "string_of_bytes b = map (\<lambda>w. char_of (unat w)) b"

section \<open>Proof of work (internal/pow/hashcash.go)\<close>

subsection \<open>CountLeadingZeroBits\<close>

text \<open>
  The inner loop \<open>for i := 7; i >= 0; i--\<close> of \<open>CountLeadingZeroBits\<close>, started at bit
  index \<open>i\<close> with the running \<open>count\<close>.  \<open>Inl r\<close> is \<open>return r\<close> from inside the loop,
  \<open>Inr count\<close> is the loop running to its end with the count it reached.
\<close>

fun bit_loop :: "byte \<Rightarrow> nat \<Rightarrow> int \<Rightarrow> int + int" where
  "bit_loop b 0 count =
     (if b AND push_bit 0 1 = 0 then Inr (count + 1) else Inl count)"
| "bit_loop b (Suc i) count =
     (if b AND push_bit (Suc i) 1 = 0 then bit_loop b i (count + 1) else Inl count)"

text \<open>The outer loop \<open>for _, b := range hash\<close> with the running \<open>count\<close>.\<close>

fun byte_loop :: "byte list \<Rightarrow> int \<Rightarrow> int" where
  "byte_loop [] count = count"
| "byte_loop (b # bs) count =
     (if b = 0 then byte_loop bs (count + 8)
      else (case bit_loop b 7 count of
              Inl r \<Rightarrow> r
            | Inr count' \<Rightarrow> byte_loop bs count'))"

definition CountLeadingZeroBits :: "byte list \<Rightarrow> int" where
  "CountLeadingZeroBits hash = byte_loop hash 0"

text \<open>
  The specification's words for the same number: the count of high-order zero bits of a
  byte, and eight per leading all-zero byte plus that count for the first non-zero byte.
\<close>

definition high_order_zero_bits :: "byte \<Rightarrow> nat" where
  "high_order_zero_bits b = length (takeWhile (\<lambda>j. \<not> bit b j) (rev [0..<8]))"

definition leading_zero_bits_spec :: "byte list \<Rightarrow> int" where
  "leading_zero_bits_spec d =
     8 * int (length (takeWhile (\<lambda>b. b = 0) d)) +
     (case dropWhile (\<lambda>b. b = 0) d of
        [] \<Rightarrow> 0
      | b # _ \<Rightarrow> int (high_order_zero_bits b))"

subsection \<open>Standard-library functions the challenge code calls\<close>

text \<open>
  \<open>strconv\<close>'s decimal rendering, which \<open>fmt\<close> uses for the verb \<open>%d\<close>: the digits of
  an unsigned number by repeated division by ten, and a leading minus sign for a negative
  signed number.
\<close>

definition digit_char :: "nat \<Rightarrow> char" where
  "digit_char k = ''0123456789'' ! k"

function FormatUint :: "nat \<Rightarrow> string" where
  "FormatUint n =
     (if n < 10 then [digit_char n] else FormatUint (n div 10) @ [digit_char (n mod 10)])"
  by pat_completeness auto
termination
  by (relation "measure (\<lambda>n. n)") auto

declare FormatUint.simps [simp del]

definition FormatInt :: "int \<Rightarrow> string" where
  "FormatInt i = (if i < 0 then CHR ''-'' # FormatUint (nat (- i)) else FormatUint (nat i))"

text \<open>
  \<open>fmt.Sprintf\<close> on the fragment the repository uses: literal bytes and the verbs
  \<open>%s\<close> (a string operand, copied) and \<open>%d\<close> (an \<open>int64\<close> or \<open>uint64\<close> operand, in
  decimal), one operand per verb.  \<open>None\<close> is a call outside that fragment.
\<close>

datatype fmt_arg = ArgString string | ArgInt64 int64 | ArgUint64 uint64

fun format_verb :: "char \<Rightarrow> fmt_arg \<Rightarrow> string option" where
  "format_verb v (ArgString s) = (if v = CHR ''s'' then Some s else None)"
| "format_verb v (ArgInt64 i) = (if v = CHR ''d'' then Some (FormatInt (sint i)) else None)"
| "format_verb v (ArgUint64 u) = (if v = CHR ''d'' then Some (FormatUint (unat u)) else None)"

fun Sprintf :: "string \<Rightarrow> fmt_arg list \<Rightarrow> string option" where
  "Sprintf [] [] = Some []"
| "Sprintf [] (a # args) = None"
| "Sprintf [c] args = (if c = CHR ''%'' then None else if args = [] then Some [c] else None)"
| "Sprintf (c # v # fs) args =
     (if c = CHR ''%'' then
        (case args of
           [] \<Rightarrow> None
         | a # args' \<Rightarrow>
             (case format_verb v a of
                None \<Rightarrow> None
              | Some s \<Rightarrow> map_option (\<lambda>r. s @ r) (Sprintf fs args')))
      else map_option (\<lambda>r. c # r) (Sprintf (v # fs) args))"

text \<open>The string a call of \<open>Sprintf\<close> inside the fragment returns.\<close>

definition fmt_result :: "string option \<Rightarrow> string" where
  "fmt_result r = (case r of Some s \<Rightarrow> s | None \<Rightarrow> [])"

text \<open>
  \<open>base64.StdEncoding.EncodeToString\<close>: the alphabet of RFC 4648 with \<open>=\<close> padding.
  Three source bytes make a 24-bit value whose four 6-bit groups index the alphabet; a
  remainder of one or two bytes is encoded into two or three characters and padded to four.
\<close>

definition encodeStd :: string where
  "encodeStd = ''ABCDEFGHIJKLMNOPQRSTUVWXYZabcdefghijklmnopqrstuvwxyz0123456789+/''"

definition encode6 :: "uint32 \<Rightarrow> nat \<Rightarrow> char" where
  "encode6 val k = encodeStd ! unat (drop_bit k val AND 0x3F)"

fun EncodeToString :: "byte list \<Rightarrow> string" where
  "EncodeToString [] = []"
| "EncodeToString [a] =
     (let val = push_bit 16 (ucast a) :: uint32
      in [encode6 val 18, encode6 val 12, CHR ''='', CHR ''=''])"
| "EncodeToString [a, b] =
     (let val = push_bit 16 (ucast a) OR push_bit 8 (ucast b) :: uint32
      in [encode6 val 18, encode6 val 12, encode6 val 6, CHR ''=''])"
| "EncodeToString (a # b # c # src) =
     (let val = push_bit 16 (ucast a) OR push_bit 8 (ucast b) OR ucast c :: uint32
      in [encode6 val 18, encode6 val 12, encode6 val 6, encode6 val 0])
     @ EncodeToString src"

subsection \<open>Challenge, ComputeHash, Verify, Solve\<close>

record Challenge =
  Data :: "byte list"
  Timestamp :: int64
  ClientIP :: string
  Difficulty :: int

text \<open>
  \<open>Challenge.String\<close>.  The format string and its three operands are those of the
  source; the call is inside the fragment of \<open>Sprintf\<close> above, so the result is there.
\<close>

definition String :: "Challenge \<Rightarrow> string" where
  "String c =
     (let encoded = EncodeToString (Data c)
      in fmt_result (Sprintf ''%s:%d:%s''
           [ArgString encoded, ArgInt64 (Timestamp c), ArgString (ClientIP c)]))"

text \<open>
  \<open>Challenge.ComputeHash\<close>.  \<open>sha256.Sum256\<close> is the standard library's; the model
  takes it as the parameter \<open>Sum256\<close>, so every result holds for SHA-256 in particular.
\<close>

definition ComputeHash :: "(byte list \<Rightarrow> byte list) \<Rightarrow> Challenge \<Rightarrow> uint64 \<Rightarrow> byte list" where
  "ComputeHash Sum256 c nonce =
     (let data = fmt_result (Sprintf ''%s:%d'' [ArgString (String c), ArgUint64 nonce])
      in Sum256 (bytes_of_string data))"

definition Verify :: "(byte list \<Rightarrow> byte list) \<Rightarrow> Challenge \<Rightarrow> uint64 \<Rightarrow> string \<Rightarrow> bool" where
  "Verify Sum256 c nonce clientIP =
     (if ClientIP c \<noteq> clientIP then False
      else (let hash = ComputeHash Sum256 c nonce;
                d = CountLeadingZeroBits hash
            in d \<ge> Difficulty c))"





text \<open>
  The specification's canonical form of the verification input:
  \<open>base64_std(random256) || ":" || decimal(unixSeconds) || ":" || identity || ":" ||
  decimal(nonce)\<close>.
\<close>

definition canonical_form :: "Challenge \<Rightarrow> uint64 \<Rightarrow> string" where
  "canonical_form c n =
     EncodeToString (Data c) @ '':'' @ FormatInt (sint (Timestamp c)) @ '':'' @
     ClientIP c @ '':'' @ FormatUint (unat n)"

text \<open>The value a string of decimal digits denotes, read left to right.\<close>

definition decimal_value :: "string \<Rightarrow> nat" where
  "decimal_value s = foldl (\<lambda>a ch. 10 * a + (of_char ch - 48)) 0 s"

text \<open>
  The difficulty predicate of the specification: the digest of challenge and nonce has at
  least \<open>Difficulty c\<close> leading zero bits.
\<close>

definition meets_difficulty :: "(byte list \<Rightarrow> byte list) \<Rightarrow> Challenge \<Rightarrow> uint64 \<Rightarrow> bool" where
  "meets_difficulty Sum256 c n = (Difficulty c \<le> CountLeadingZeroBits (ComputeHash Sum256 c n))"



text \<open>A digest function for concrete instances: the first 32 bytes of the zero-padded input.\<close>

definition prefix_digest :: "byte list \<Rightarrow> byte list" where
  "prefix_digest input = take 32 (input @ replicate 32 0)"

text \<open>A challenge for concrete instances.\<close>

definition sample_challenge :: Challenge where
  "sample_challenge =
     \<lparr>Data = replicate 32 0, Timestamp = 1700000000, ClientIP = ''192.168.1.1'',
      Difficulty = 1\<rparr>"

section \<open>Leading zero bits\<close>

lemma and_push_bit_one_eq_0_iff:
  "(b AND push_bit i 1 = 0) = (\<not> bit b i)" for b :: byte
  using and_exp_eq_0_iff_not_bit [of b i] by (simp only: push_bit_of_1)

lemma bit_loop_eq:
  "bit_loop b i count =
     (if \<forall>j\<le>i. \<not> bit b j then Inr (count + int i + 1)
      else Inl (count + int (length (takeWhile (\<lambda>j. \<not> bit b j) (rev [0..<Suc i])))))"
proof (induction i arbitrary: count)
  case 0
  show ?case using and_push_bit_one_eq_0_iff [of b 0] by simp
next
  case (Suc i)
  show ?case
    apply (simp only: bit_loop.simps and_push_bit_one_eq_0_iff Suc.IH)
    apply (auto simp add: le_Suc_eq)
    done
qed

lemma byte_eq_0_iff: "(\<forall>j\<le>7. \<not> bit b j) = (b = 0)" for b :: byte
proof
  assume h: "\<forall>j\<le>7. \<not> bit b j"
  show "b = 0"
  proof (rule bit_eqI)
    fix n assume "possible_bit TYPE(byte) n"
    then have "n \<le> 7" by (simp add: possible_bit_word)
    with h show "bit b n = bit (0 :: byte) n" by simp
  qed
qed simp

lemma length_takeWhile_less_length:
  "x \<in> set xs \<Longrightarrow> \<not> P x \<Longrightarrow> length (takeWhile P xs) < length xs"
  by (induction xs) auto

lemma high_order_zero_bits_less:
  "b \<noteq> 0 \<Longrightarrow> high_order_zero_bits b < 8"
proof -
  assume "b \<noteq> 0"
  then obtain j where j: "j \<le> 7" "bit b j" using byte_eq_0_iff [of b] by blast
  then have m: "j \<in> set (rev [0..<8])" by simp
  have n: "\<not> (\<lambda>j. \<not> bit b j) j" using j by simp
  from m n have "length (takeWhile (\<lambda>j. \<not> bit b j) (rev [0..<8])) < length (rev [0..<8])"
    by (rule length_takeWhile_less_length)
  then show ?thesis by (simp add: high_order_zero_bits_def)
qed

lemma bit_loop_nonzero:
  "b \<noteq> 0 \<Longrightarrow> bit_loop b 7 count = Inl (count + int (high_order_zero_bits b))"
  using byte_eq_0_iff [of b]
  by (simp only: bit_loop_eq high_order_zero_bits_def eval_nat_numeral) simp


lemma byte_loop_spec:
  "byte_loop d count = count + leading_zero_bits_spec d"
proof (induction d arbitrary: count)
  case Nil
  show ?case by (simp add: leading_zero_bits_spec_def)
next
  case (Cons b bs)
  show ?case
  proof (cases "b = 0")
    case True
    then show ?thesis using Cons.IH [of "count + 8"]
      by (simp add: leading_zero_bits_spec_def)
  next
    case False
    then show ?thesis
      by (simp add: bit_loop_nonzero leading_zero_bits_spec_def)
  qed
qed

lemma leading_zero_bits_spec_bounds:
  "0 \<le> leading_zero_bits_spec d \<and> leading_zero_bits_spec d \<le> 8 * int (length d)"
proof (induction d)
  case Nil
  show ?case by (simp add: leading_zero_bits_spec_def)
next
  case (Cons b bs)
  show ?case
  proof (cases "b = 0")
    case True
    then show ?thesis using Cons.IH by (simp add: leading_zero_bits_spec_def)
  next
    case False
    then show ?thesis using high_order_zero_bits_less [of b]
      by (simp add: leading_zero_bits_spec_def)
  qed
qed

lemma takeWhile_nth_holds:
  assumes "i < length (takeWhile P xs)"
  shows "P (xs ! i)"
proof -
  have "takeWhile P xs ! i \<in> set (takeWhile P xs)"
    using assms by (rule nth_mem)
  then have "P (takeWhile P xs ! i)"
    by (rule set_takeWhileD [THEN conjunct2])
  moreover have "takeWhile P xs ! i = xs ! i"
    using assms by (rule takeWhile_nth)
  ultimately show ?thesis by simp
qed

lemma rev_upt_8_nth: "k < 8 \<Longrightarrow> rev [0..<8] ! k = 7 - k"
  by (simp only: rev_nth length_upt nth_upt)

lemma high_order_zero_bits_top:
  assumes "j < 8" and "7 - j < high_order_zero_bits b"
  shows "\<not> bit b j"
proof -
  have "7 - j < length (takeWhile (\<lambda>j. \<not> bit b j) (rev [0..<8]))"
    using assms(2) by (simp only: high_order_zero_bits_def)
  then have "\<not> bit b (rev [0..<8] ! (7 - j))"
    by (rule takeWhile_nth_holds)
  moreover have "rev [0..<8] ! (7 - j) = 7 - (7 - j)"
    by (rule rev_upt_8_nth) simp
  ultimately show ?thesis using assms(1) by simp
qed

lemma high_order_zero_bits_stop:
  "b \<noteq> 0 \<Longrightarrow> bit b (7 - high_order_zero_bits b)"
proof -
  assume "b \<noteq> 0"
  then have l: "high_order_zero_bits b < length (rev [0..<8])"
    using high_order_zero_bits_less [of b] by simp
  have "\<not> \<not> bit b (rev [0..<8] ! high_order_zero_bits b)"
    using l unfolding high_order_zero_bits_def by (rule nth_length_takeWhile)
  moreover have "rev [0..<8] ! high_order_zero_bits b = 7 - high_order_zero_bits b"
    using high_order_zero_bits_less [OF \<open>b \<noteq> 0\<close>] by (rule rev_upt_8_nth)
  ultimately show ?thesis by simp
qed

text \<open>
  Claim C5.  For every 32-byte digest \<open>d\<close>, \<open>CountLeadingZeroBits d\<close> lies in
  \<open>[0, 256]\<close> and is eight times the number of leading all-zero bytes plus the number of
  high-order zero bits of the first non-zero byte; that number is at most 7, the bit right
  below those zero bits is set and the bits above it are clear.  The function takes the
  digest only, so no difficulty can cut the count short.  The all-zero digest gives 256,
  and the digests starting \<open>0x80\<close>, \<open>0x00 0x80\<close>, \<open>0x01\<close>, \<open>0x0F\<close> (rest zero) give
  0, 8, 7 and 4.
\<close>

theorem CountLeadingZeroBits_correct:
  assumes "length d = 32"
  shows "0 \<le> CountLeadingZeroBits d \<and> CountLeadingZeroBits d \<le> 256
    \<and> CountLeadingZeroBits d =
        8 * int (length (takeWhile (\<lambda>b. b = 0) d)) +
        (case dropWhile (\<lambda>b. b = 0) d of
           [] \<Rightarrow> 0
         | b # _ \<Rightarrow> int (high_order_zero_bits b))
    \<and> (\<forall>b bs. dropWhile (\<lambda>b. b = 0) d = b # bs \<longrightarrow>
          high_order_zero_bits b \<le> 7 \<and> bit b (7 - high_order_zero_bits b) \<and>
          (\<forall>j<8. 7 - j < high_order_zero_bits b \<longrightarrow> \<not> bit b j))
    \<and> CountLeadingZeroBits (replicate 32 0) = 256
    \<and> CountLeadingZeroBits (0x80 # replicate 31 0) = 0
    \<and> CountLeadingZeroBits (0x00 # 0x80 # replicate 30 0) = 8
    \<and> CountLeadingZeroBits (0x01 # replicate 31 0) = 7
    \<and> CountLeadingZeroBits (0x0F # replicate 31 0) = 4"
proof -
  have eq: "CountLeadingZeroBits d = leading_zero_bits_spec d"
    by (simp add: CountLeadingZeroBits_def byte_loop_spec)
  have range: "0 \<le> CountLeadingZeroBits d \<and> CountLeadingZeroBits d \<le> 256"
    using leading_zero_bits_spec_bounds [of d] assms by (simp add: eq)
  have first: "\<forall>b bs. dropWhile (\<lambda>b. b = 0) d = b # bs \<longrightarrow>
          high_order_zero_bits b \<le> 7 \<and> bit b (7 - high_order_zero_bits b) \<and>
          (\<forall>j<8. 7 - j < high_order_zero_bits b \<longrightarrow> \<not> bit b j)"
  proof (intro allI impI)
    fix b bs assume "dropWhile (\<lambda>b. b = 0) d = b # bs"
    then have nz: "b \<noteq> 0" using hd_dropWhile [of "\<lambda>b. b = 0" d] by auto
    show "high_order_zero_bits b \<le> 7 \<and> bit b (7 - high_order_zero_bits b) \<and>
          (\<forall>j<8. 7 - j < high_order_zero_bits b \<longrightarrow> \<not> bit b j)"
      using high_order_zero_bits_less [OF nz] high_order_zero_bits_stop [OF nz]
        high_order_zero_bits_top [of _ b] by auto
  qed
  have e1: "CountLeadingZeroBits (replicate 32 0) = 256" by code_simp
  have e2: "CountLeadingZeroBits (0x80 # replicate 31 0) = 0" by code_simp
  have e3: "CountLeadingZeroBits (0x00 # 0x80 # replicate 30 0) = 8" by code_simp
  have e4: "CountLeadingZeroBits (0x01 # replicate 31 0) = 7" by code_simp
  have e5: "CountLeadingZeroBits (0x0F # replicate 31 0) = 4" by code_simp
  from range eq first e1 e2 e3 e4 e5 show ?thesis
    by (simp only: leading_zero_bits_spec_def)
qed

theorem CountLeadingZeroBits_correct_witness:
  "length (0x00 # 0x1F # replicate 30 (0xFF :: byte)) = 32
   \<and> CountLeadingZeroBits (0x00 # 0x1F # replicate 30 0xFF) = 11
   \<and> CountLeadingZeroBits (0x00 # 0x1F # replicate 30 0xFF) \<le> 256"
proof -
  have l: "length (0x00 # 0x1F # replicate 30 (0xFF :: byte)) = 32" by simp
  have v: "CountLeadingZeroBits (0x00 # 0x1F # replicate 30 0xFF) = 11" by code_simp
  show ?thesis using CountLeadingZeroBits_correct [OF l] l v by simp
qed

section \<open>Bytes and strings\<close>



lemma of_char_char_of_unat: "of_char (char_of (unat w)) = w" for w :: byte
proof -
  have "unat w < 256" using unsigned_less [of w, where 'a = nat] by simp
  then have "(of_char (char_of (unat w)) :: nat) = unat w" by simp
  then have "of_nat (of_char (char_of (unat w)) :: nat) = (of_nat (unat w) :: byte)" by simp
  then show ?thesis by (simp only: of_nat_of_char of_nat_unat ucast_id)
qed

lemma bytes_of_string_of_bytes: "bytes_of_string (string_of_bytes b) = b"
  by (induction b) (simp_all add: string_of_bytes_def bytes_of_string_def of_char_char_of_unat)


section \<open>The canonical form\<close>

lemma String_eq:
  "String c = EncodeToString (Data c) @ '':'' @ FormatInt (sint (Timestamp c)) @ '':'' @ ClientIP c"
  by (simp add: String_def fmt_result_def)

lemma ComputeHash_canonical:
  "ComputeHash Sum256 c n = Sum256 (bytes_of_string (canonical_form c n))"
  by (simp add: ComputeHash_def String_eq fmt_result_def canonical_form_def)

lemma less_10_cases:
  "k < 10 \<Longrightarrow> k = 0 \<or> k = 1 \<or> k = 2 \<or> k = 3 \<or> k = 4 \<or> k = 5 \<or> k = 6 \<or> k = 7 \<or> k = 8 \<or> k = (9::nat)"
  by arith

lemma digit_char_value: "k < 10 \<Longrightarrow> (of_char (digit_char k) :: nat) - 48 = k"
  using less_10_cases [of k] by (auto simp add: digit_char_def)

lemma digit_char_zero: "k < 10 \<Longrightarrow> (digit_char k = CHR ''0'') = (k = 0)"
  using less_10_cases [of k] by (auto simp add: digit_char_def)

lemma digit_char_digit: "k < 10 \<Longrightarrow> digit_char k \<in> set ''0123456789''"
  using less_10_cases [of k] by (auto simp add: digit_char_def)

lemma FormatUint_digits: "set (FormatUint n) \<subseteq> set ''0123456789''"
proof (induction n rule: FormatUint.induct)
  case (1 n)
  show ?case
  proof (cases "n < 10")
    case True
    then show ?thesis using digit_char_digit [of n]
      by (subst FormatUint.simps) simp
  next
    case False
    have "n mod 10 < 10" by simp
    then have "digit_char (n mod 10) \<in> set ''0123456789''" by (rule digit_char_digit)
    with False "1.IH" show ?thesis
      by (subst FormatUint.simps) simp
  qed
qed

lemma FormatUint_nonempty: "FormatUint n \<noteq> []"
  by (subst FormatUint.simps) simp

lemma decimal_value_append:
  "decimal_value (s @ [ch]) = 10 * decimal_value s + (of_char ch - 48)"
  by (simp add: decimal_value_def)

lemma decimal_value_FormatUint: "decimal_value (FormatUint n) = n"
proof (induction n rule: FormatUint.induct)
  case (1 n)
  show ?case
  proof (cases "n < 10")
    case True
    then show ?thesis using digit_char_value [of n]
      by (subst FormatUint.simps) (simp add: decimal_value_def)
  next
    case False
    have "decimal_value (FormatUint (n div 10) @ [digit_char (n mod 10)]) = 10 * (n div 10) + n mod 10"
      using "1.IH" [OF False] digit_char_value [of "n mod 10"]
      by (simp add: decimal_value_append)
    with False show ?thesis
      by (subst FormatUint.simps) simp
  qed
qed

lemma FormatUint_no_leading_zero: "n \<noteq> 0 \<Longrightarrow> hd (FormatUint n) \<noteq> CHR ''0''"
proof (induction n rule: FormatUint.induct)
  case (1 n)
  show ?case
  proof (cases "n < 10")
    case True
    then show ?thesis using digit_char_zero [of n] "1.prems"
      by (subst FormatUint.simps) simp
  next
    case False
    then have "n div 10 \<noteq> 0" by simp
    with "1.IH" False have "hd (FormatUint (n div 10)) \<noteq> CHR ''0''" by simp
    with False show ?thesis
      by (subst FormatUint.simps) (simp add: FormatUint_nonempty)
  qed
qed


lemma encode6_alphabet: "encode6 val k \<in> set encodeStd"
proof -
  have "drop_bit k val AND 0x3F \<le> 0x3F" by (rule word_and_le1)
  then have "unat (drop_bit k val AND 0x3F) \<le> unat (0x3F :: uint32)"
    by (simp only: word_le_nat_alt)
  then have "unat (drop_bit k val AND 0x3F) < length encodeStd"
    by (simp add: encodeStd_def)
  then show ?thesis unfolding encode6_def by (rule nth_mem)
qed

lemma EncodeToString_alphabet:
  "set (EncodeToString src) \<subseteq> set encodeStd \<union> {CHR ''=''}"
  by (induction src rule: EncodeToString.induct)
     (auto simp add: Let_def encode6_alphabet)

lemma EncodeToString_length:
  "length (EncodeToString src) = 4 * ((length src + 2) div 3)"
proof (induction src rule: EncodeToString.induct)
  case (4 a b c src)
  have "(length src + 2 + 3) div 3 = (length src + 2) div 3 + 1" by arith
  then have "(length (a # b # c # src) + 2) div 3 = (length src + 2) div 3 + 1"
    by (simp add: add.commute)
  with "4.IH" show ?case by (simp add: Let_def)
qed (simp_all add: Let_def)

lemma EncodeToString_padded:
  "length src mod 3 = 2 \<Longrightarrow>
   \<exists>body. EncodeToString src = body @ ''='' \<and> set body \<subseteq> set encodeStd"
proof (induction src rule: EncodeToString.induct)
  case 1
  then show ?case by simp
next
  case (2 a)
  then show ?case by simp
next
  case (3 a b)
  let ?val = "push_bit 16 (ucast a) OR push_bit 8 (ucast b) :: uint32"
  have "EncodeToString [a, b] = [encode6 ?val 18, encode6 ?val 12, encode6 ?val 6] @ ''=''"
    by (simp add: Let_def)
  moreover have "set [encode6 ?val 18, encode6 ?val 12, encode6 ?val 6] \<subseteq> set encodeStd"
    by (simp add: encode6_alphabet)
  ultimately show ?case by blast
next
  case (4 a b c src)
  then have "length src mod 3 = 2" by simp
  with "4.IH" obtain body where
    body: "EncodeToString src = body @ ''=''" "set body \<subseteq> set encodeStd" by blast
  let ?val = "push_bit 16 (ucast a) OR push_bit 8 (ucast b) OR ucast c :: uint32"
  let ?g = "[encode6 ?val 18, encode6 ?val 12, encode6 ?val 6, encode6 ?val 0]"
  have "EncodeToString (a # b # c # src) = (?g @ body) @ ''=''"
    by (simp add: Let_def body(1))
  moreover have "set (?g @ body) \<subseteq> set encodeStd"
    using body(2) by (simp add: encode6_alphabet)
  ultimately show ?case by blast
qed

section \<open>Solving\<close>






lemma Verify_meets_difficulty:
  "Verify Sum256 c n i = (i = ClientIP c \<and> meets_difficulty Sum256 c n)"
  by (auto simp add: Verify_def meets_difficulty_def Let_def)

lemma EncodeToString_zeros:
  "EncodeToString (replicate 32 0) = ''AAAAAAAAAAAAAAAAAAAAAAAAAAAAAAAAAAAAAAAAAAA=''"
  by code_simp


lemma sample_canonical_form_42:
  "canonical_form sample_challenge 42 =
     ''AAAAAAAAAAAAAAAAAAAAAAAAAAAAAAAAAAAAAAAAAAA=:1700000000:192.168.1.1:42''"
  by (simp add: canonical_form_def sample_challenge_def EncodeToString_zeros FormatInt_def
      FormatUint.simps digit_char_def)




text \<open>
  Claim C1.  \<open>Verify c n i\<close> is true exactly when the presented identity \<open>i\<close> is the
  challenge's \<open>ClientIP\<close> and the digest of the canonical form of \<open>(c, n)\<close> has at least
  \<open>Difficulty c\<close> leading zero bits.  \<open>Verify\<close> reads no clock and no shared state: its
  result is a function of the challenge, the nonce and the identity (and of the digest
  function, which is SHA-256 in the program).
\<close>

theorem Verify_iff:
  "Verify Sum256 c n i =
     (i = ClientIP c \<and>
      Difficulty c \<le> CountLeadingZeroBits (Sum256 (bytes_of_string (canonical_form c n))))"
  by (simp add: Verify_meets_difficulty meets_difficulty_def ComputeHash_canonical)

text \<open>
  Claim C4.  The digest that \<open>Verify\<close> compares with the difficulty is the digest of
  exactly \<open>base64(Data) || ":" || decimal(Timestamp) || ":" || ClientIP || ":" ||
  decimal(nonce)\<close>.  For the 32 bytes of \<open>Data\<close> the base64 text has 44 characters: 43 from
  the standard alphabet and one \<open>=\<close> of padding.  The nonce is rendered with decimal digits
  only (so without a sign), the digits denote the nonce, and the first digit is \<open>0\<close> only
  for the nonce 0, which is rendered \<open>0\<close>.
\<close>

theorem ComputeHash_canonical_form:
  assumes "length (Data c) = 32"
  shows "ComputeHash Sum256 c n =
       Sum256 (bytes_of_string (EncodeToString (Data c) @ '':'' @
         FormatInt (sint (Timestamp c)) @ '':'' @ ClientIP c @ '':'' @ FormatUint (unat n)))
    \<and> Verify Sum256 c n (ClientIP c) =
       (Difficulty c \<le> CountLeadingZeroBits (ComputeHash Sum256 c n))
    \<and> length (EncodeToString (Data c)) = 44
    \<and> last (EncodeToString (Data c)) = CHR ''=''
    \<and> set (butlast (EncodeToString (Data c))) \<subseteq> set encodeStd
    \<and> set (FormatUint (unat n)) \<subseteq> set ''0123456789''
    \<and> decimal_value (FormatUint (unat n)) = unat n
    \<and> (hd (FormatUint (unat n)) = CHR ''0'') = (n = 0)
    \<and> (FormatUint (unat n) = ''0'') = (n = 0)"
proof -
  have h: "ComputeHash Sum256 c n =
       Sum256 (bytes_of_string (EncodeToString (Data c) @ '':'' @
         FormatInt (sint (Timestamp c)) @ '':'' @ ClientIP c @ '':'' @ FormatUint (unat n)))"
    by (simp only: ComputeHash_canonical canonical_form_def)
  have v: "Verify Sum256 c n (ClientIP c) =
       (Difficulty c \<le> CountLeadingZeroBits (ComputeHash Sum256 c n))"
    by (simp add: Verify_meets_difficulty meets_difficulty_def)
  have l: "length (EncodeToString (Data c)) = 44"
    using assms by (simp add: EncodeToString_length)
  have "length (Data c) mod 3 = 2" using assms by simp
  then obtain body where body: "EncodeToString (Data c) = body @ ''=''"
    "set body \<subseteq> set encodeStd"
    using EncodeToString_padded by blast
  have p: "last (EncodeToString (Data c)) = CHR ''=''" by (simp add: body(1))
  have b: "set (butlast (EncodeToString (Data c))) \<subseteq> set encodeStd"
    using body(2) by (simp add: body(1))
  have z: "FormatUint 0 = ''0''" by (subst FormatUint.simps) (simp add: digit_char_def)
  have u: "(unat n = 0) = (n = 0)" by (simp add: unat_eq_0)
  have d1: "(hd (FormatUint (unat n)) = CHR ''0'') = (n = 0)"
    using FormatUint_no_leading_zero [of "unat n"] z u by (cases "n = 0") auto
  have d2: "(FormatUint (unat n) = ''0'') = (n = 0)"
    using FormatUint_no_leading_zero [of "unat n"] z u by (cases "n = 0") auto
  from h v l p b FormatUint_digits [of "unat n"] decimal_value_FormatUint [of "unat n"] d1 d2
  show ?thesis by blast
qed

theorem ComputeHash_canonical_form_witness:
  "length (Data sample_challenge) = 32
   \<and> ComputeHash prefix_digest sample_challenge 42 =
       prefix_digest (bytes_of_string
         ''AAAAAAAAAAAAAAAAAAAAAAAAAAAAAAAAAAAAAAAAAAA=:1700000000:192.168.1.1:42'')
   \<and> FormatUint (unat (42 :: uint64)) = ''42''"
proof -
  have l: "length (Data sample_challenge) = 32" by (simp add: sample_challenge_def)
  have f: "FormatUint (unat (42 :: uint64)) = ''42''"
    by (simp add: FormatUint.simps digit_char_def)
  have e: "EncodeToString (Data sample_challenge) =
      ''AAAAAAAAAAAAAAAAAAAAAAAAAAAAAAAAAAAAAAAAAAA=''"
    by (simp add: sample_challenge_def EncodeToString_zeros)
  have t: "FormatInt (sint (Timestamp sample_challenge)) = ''1700000000''"
    by (simp add: sample_challenge_def FormatInt_def FormatUint.simps digit_char_def)
  have i: "ClientIP sample_challenge = ''192.168.1.1''" by (simp add: sample_challenge_def)
  show ?thesis
    using ComputeHash_canonical_form [OF l, of prefix_digest 42] l
    by (simp only: f e t i) simp
qed




end
